theory Spec2Isabelle
  imports Main "HOL-Library.Sublist"
begin

section \<open>Values, errors and the world the tools act on\<close>

text \<open>
  The session state of the agent framework maps string keys to Python values. The values
  that matter for \<open>existing_state + [response]\<close> are lists (concatenation succeeds) and
  everything else (the addition raises \<open>TypeError\<close>).
\<close>

datatype pyval =
    PNone
  | PBool bool
  | PInt int
  | PStr string
  | PList "pyval list"

text \<open>
  The exceptions that occur. \<open>NameTooLongError\<close> stands for the plain \<open>OSError\<close> with errno
  \<open>ENAMETOOLONG\<close>. All but \<open>TypeError\<close> and \<open>ValueError\<close> are \<open>OSError\<close>s.
\<close>

datatype error =
    TypeError
  | ValueError
  | FileNotFoundError
  | FileExistsError
  | NotADirectoryError
  | IsADirectoryError
  | PermissionError
  | NameTooLongError

definition is_OSError :: "error \<Rightarrow> bool" where
  "is_OSError e = (e \<noteq> TypeError \<and> e \<noteq> ValueError)"

text \<open>
  A string stands for the UTF-8 bytes of the Python text, the encoding of file names and of
  text files on the systems the tool runs on.

  The file system: canonical absolute paths (lists of component names, from the root) are
  bound to directories or regular files. The flag says whether the process may write to
  the node. Symbolic links are not modelled.
\<close>

type_synonym path = "string list"

datatype node = Dir bool | File bool string

record world =
  state :: "string \<rightharpoonup> pyval"
  nodes :: "path \<rightharpoonup> node"
  cwd :: path
  logs :: "string list"

text \<open>The dictionary \<open>{"status": "success"}\<close> both tools return.\<close>

definition success :: "(string \<times> string) list" where
  "success = [(''status'', ''success'')]"

section \<open>The state-append tool\<close>

text \<open>\<open>dict.get(key, default)\<close>.\<close>

definition dict_get :: "('k \<rightharpoonup> 'v) \<Rightarrow> 'k \<Rightarrow> 'v \<Rightarrow> 'v" where
  "dict_get m k dflt = (case m k of None \<Rightarrow> dflt | Some v \<Rightarrow> v)"

text \<open>\<open>v + ys\<close> for a list \<open>ys\<close>: only a list on the left can be added to a list.\<close>

definition py_add_list :: "pyval \<Rightarrow> pyval list \<Rightarrow> error + pyval" where
  "py_add_list v ys = (case v of PList xs \<Rightarrow> Inr (PList (xs @ ys)) | _ \<Rightarrow> Inl TypeError)"

text \<open>
  \<^verbatim>\<open>
  def append_to_state(tool_context, field, response):
      existing_state = tool_context.state.get(field, [])
      tool_context.state[field] = existing_state + [response]
      logging.info(f"[Added to {field}] {response}")
      return {"status": "success"}
  \<close>
  An exception leaves the world as it was at the raise.
\<close>

definition append_to_state ::
  "world \<Rightarrow> string \<Rightarrow> string \<Rightarrow> world \<times> (error + (string \<times> string) list)" where
  "append_to_state w field response =
     (let existing_state = dict_get (state w) field (PList [])
      in case py_add_list existing_state [PStr response] of
           Inl e \<Rightarrow> (w, Inl e)
         | Inr v \<Rightarrow>
             (w\<lparr>state := (state w)(field \<mapsto> v),
                logs := logs w @ [''[Added to '' @ field @ ''] '' @ response]\<rparr>,
              Inr success))"

text \<open>
  The key typing as the specification words it: \<open>PROMPT\<close> holds a string, \<open>pos_data\<close> and
  \<open>neg_data\<close> hold sequences of strings (a key may still be unset).
\<close>

definition is_str :: "pyval \<Rightarrow> bool" where
  "is_str v = (case v of PStr _ \<Rightarrow> True | _ \<Rightarrow> False)"

definition is_str_list :: "pyval \<Rightarrow> bool" where
  "is_str_list v = (case v of PList xs \<Rightarrow> list_all is_str xs | _ \<Rightarrow> False)"

definition unset_or :: "(pyval \<Rightarrow> bool) \<Rightarrow> pyval option \<Rightarrow> bool" where
  "unset_or P x = (case x of None \<Rightarrow> True | Some v \<Rightarrow> P v)"

definition spec_typing :: "(string \<rightharpoonup> pyval) \<Rightarrow> bool" where
  "spec_typing st =
     (unset_or is_str (st ''PROMPT'') \<and>
      unset_or is_str_list (st ''pos_data'') \<and>
      unset_or is_str_list (st ''neg_data''))"

text \<open>The typing the tool maintains: each of the three keys is unset or a list of strings.\<close>

definition list_typing :: "(string \<rightharpoonup> pyval) \<Rightarrow> bool" where
  "list_typing st =
     (unset_or is_str_list (st ''PROMPT'') \<and>
      unset_or is_str_list (st ''pos_data'') \<and>
      unset_or is_str_list (st ''neg_data''))"

text \<open>The sequence stored at a key (empty when the key is unset or holds no list).\<close>

definition seq_at :: "(string \<rightharpoonup> pyval) \<Rightarrow> string \<Rightarrow> pyval list" where
  "seq_at st k = (case st k of Some (PList xs) \<Rightarrow> xs | _ \<Rightarrow> [])"

text \<open>
  The greeter's instruction: "use the 'append_to_state' tool to store the user's response
  in the 'PROMPT' state key". The step the greeter takes on a response is that call.
\<close>

definition greeter_store ::
  "world \<Rightarrow> string \<Rightarrow> world \<times> (error + (string \<times> string) list)" where
  "greeter_store w response = append_to_state w ''PROMPT'' response"

text \<open>A session at its start: no key is set; the working directory is the root.\<close>

definition w0 :: world where
  "w0 = \<lparr>state = Map.empty, nodes = [[] \<mapsto> Dir True], cwd = [], logs = []\<rparr>"

section \<open>Agents\<close>

text \<open>
  The agent definitions of \<open>agent.py\<close>: names, models, tools, sub-agents and the loop's
  iteration cap. Descriptions, instruction texts and the greeter's generation
  configuration are prompt text and are left out.
\<close>

record HttpRetryOptions =
  initial_delay :: int
  attempts :: int

record Gemini =
  model :: "string option"
  retry_options :: "HttpRetryOptions option"

datatype tool = WikipediaQueryRun | AppendToState | WriteFile | ExitLoop

datatype agent =
    Agent string Gemini "tool list" "agent list"
  | ParallelAgent string "agent list"
  | LoopAgent string "agent list" "nat option"
  | SequentialAgent string "agent list"

definition RETRY_OPTIONS :: HttpRetryOptions where
  "RETRY_OPTIONS = \<lparr>initial_delay = 1, attempts = 6\<rparr>"

text \<open>\<open>model_name = os.getenv("MODEL")\<close> is read from the environment: a parameter here.\<close>

definition admirer :: "string option \<Rightarrow> agent" where
  "admirer model_name =
     Agent ''admirer'' \<lparr>model = model_name, retry_options = Some RETRY_OPTIONS\<rparr>
       [WikipediaQueryRun, AppendToState] []"

definition critic_researcher :: "string option \<Rightarrow> agent" where
  "critic_researcher model_name =
     Agent ''critic_researcher'' \<lparr>model = model_name, retry_options = Some RETRY_OPTIONS\<rparr>
       [WikipediaQueryRun, AppendToState] []"

definition investigation_team :: "string option \<Rightarrow> agent" where
  "investigation_team model_name =
     ParallelAgent ''investigation_team'' [admirer model_name, critic_researcher model_name]"

definition judge :: "string option \<Rightarrow> agent" where
  "judge model_name =
     Agent ''judge'' \<lparr>model = model_name, retry_options = Some RETRY_OPTIONS\<rparr>
       [AppendToState, ExitLoop] []"

definition trial_loop :: "string option \<Rightarrow> agent" where
  "trial_loop model_name =
     LoopAgent ''trial_loop'' [investigation_team model_name, judge model_name] (Some 3)"

definition verdict_writer :: "string option \<Rightarrow> agent" where
  "verdict_writer model_name =
     Agent ''verdict_writer'' \<lparr>model = model_name, retry_options = Some RETRY_OPTIONS\<rparr>
       [WriteFile] []"

definition historical_court_system :: "string option \<Rightarrow> agent" where
  "historical_court_system model_name =
     SequentialAgent ''historical_court_system''
       [trial_loop model_name, verdict_writer model_name]"

definition root_agent :: "string option \<Rightarrow> agent" where
  "root_agent model_name =
     Agent ''judge_greeter'' \<lparr>model = model_name, retry_options = Some RETRY_OPTIONS\<rparr>
       [AppendToState] [historical_court_system model_name]"

text \<open>Every model-backed agent of a tree, with its name and model, in definition order.\<close>

fun model_backed :: "agent \<Rightarrow> (string \<times> Gemini) list" where
  "model_backed (Agent n g ts subs) = (n, g) # concat (map model_backed subs)"
| "model_backed (ParallelAgent n subs) = concat (map model_backed subs)"
| "model_backed (LoopAgent n subs cap) = concat (map model_backed subs)"
| "model_backed (SequentialAgent n subs) = concat (map model_backed subs)"

text \<open>Name, iteration cap and sub-agents of an agent.\<close>

fun agent_name :: "agent \<Rightarrow> string" where
  "agent_name (Agent n g ts subs) = n"
| "agent_name (ParallelAgent n subs) = n"
| "agent_name (LoopAgent n subs cap) = n"
| "agent_name (SequentialAgent n subs) = n"

fun max_iterations :: "agent \<Rightarrow> nat option" where
  "max_iterations (LoopAgent n subs cap) = cap"
| "max_iterations _ = None"

fun sub_agents :: "agent \<Rightarrow> agent list" where
  "sub_agents (Agent n g ts subs) = subs"
| "sub_agents (ParallelAgent n subs) = subs"
| "sub_agents (LoopAgent n subs cap) = subs"
| "sub_agents (SequentialAgent n subs) = subs"

text \<open>The tools an agent and the agents below it may call.\<close>

fun tools_below :: "agent \<Rightarrow> tool list" where
  "tools_below (Agent n g ts subs) = ts @ concat (map tools_below subs)"
| "tools_below (ParallelAgent n subs) = concat (map tools_below subs)"
| "tools_below (LoopAgent n subs cap) = concat (map tools_below subs)"
| "tools_below (SequentialAgent n subs) = concat (map tools_below subs)"

text \<open>
  Modelled from the spec: the run loop of the framework's \<open>LoopAgent\<close>, which the
  repository imports and does not define. The specification (4.6) gives it as a bounded
  loop: the sub-agents run in order, once per iteration; an exit signal raised by a
  sub-agent ends the loop at once; otherwise the loop ends when the iteration count
  reaches the cap. Only a sub-agent holding the \<open>exit_loop\<close> tool can raise the signal.
  \<open>decides k name\<close> says whether the model behind agent \<open>name\<close> chooses to call \<open>exit_loop\<close>
  in iteration \<open>k\<close>: it stands for the model's output, which no code determines.
\<close>

datatype loop_state = Iterating nat | TerminatedBySignal | TerminatedByCap

text \<open>The body: the sub-agents in order; the result says whether the signal was raised.\<close>

fun run_body :: "(string \<Rightarrow> bool) \<Rightarrow> agent list \<Rightarrow> bool" where
  "run_body decide [] = False"
| "run_body decide (a # as) =
     (if ExitLoop \<in> set (tools_below a) \<and> decide (agent_name a) then True
      else run_body decide as)"

definition cap_reached :: "nat option \<Rightarrow> nat \<Rightarrow> bool" where
  "cap_reached cap n = (case cap of None \<Rightarrow> False | Some m \<Rightarrow> m \<le> n)"

text \<open>
  One step of the loop. \<open>Iterating k\<close>: the body has run \<open>k\<close> times and is entered once
  more.
\<close>

definition loop_step :: "agent \<Rightarrow> (nat \<Rightarrow> string \<Rightarrow> bool) \<Rightarrow> loop_state \<Rightarrow> loop_state" where
  "loop_step loop decides s =
     (case s of
        Iterating k \<Rightarrow>
          (if run_body (decides k) (sub_agents loop) then TerminatedBySignal
           else if cap_reached (max_iterations loop) (Suc k) then TerminatedByCap
           else Iterating (Suc k))
      | TerminatedBySignal \<Rightarrow> TerminatedBySignal
      | TerminatedByCap \<Rightarrow> TerminatedByCap)"

fun is_terminal :: "loop_state \<Rightarrow> bool" where
  "is_terminal (Iterating k) = False"
| "is_terminal _ = True"

text \<open>How often the body has been entered in the first \<open>n\<close> steps.\<close>

fun bodies_run :: "agent \<Rightarrow> (nat \<Rightarrow> string \<Rightarrow> bool) \<Rightarrow> nat \<Rightarrow> nat" where
  "bodies_run loop decides 0 = 0"
| "bodies_run loop decides (Suc n) =
     (if is_terminal ((loop_step loop decides ^^ n) (Iterating 0)) then bodies_run loop decides n
      else Suc (bodies_run loop decides n))"

section \<open>Path strings\<close>

text \<open>
  The tool runs on a POSIX system, where \<open>os.path\<close> is \<open>posixpath\<close>. Its functions are pure
  string functions and are written out as the library has them.
\<close>

definition sep :: char where
  "sep = CHR ''/''"

definition startswith :: "string \<Rightarrow> char \<Rightarrow> bool" where
  "startswith s c = (case s of [] \<Rightarrow> False | x # _ \<Rightarrow> x = c)"

definition endswith :: "string \<Rightarrow> char \<Rightarrow> bool" where
  "endswith s c = (s \<noteq> [] \<and> last s = c)"

text \<open>\<open>s.rfind(c)\<close>: the index of the last occurrence of \<open>c\<close>, or \<open>-1\<close>.\<close>

definition rfind :: "string \<Rightarrow> char \<Rightarrow> int" where
  "rfind s c = int (length (dropWhile (\<lambda>x. x \<noteq> c) (rev s))) - 1"

definition rstrip :: "string \<Rightarrow> char \<Rightarrow> string" where
  "rstrip s c = rev (dropWhile (\<lambda>x. x = c) (rev s))"

text \<open>
  \<^verbatim>\<open>
  def join(a, b):
      path = a
      if b.startswith(sep) or not path: path = b
      elif path.endswith(sep): path += b
      else: path += sep + b
      return path
  \<close>
\<close>

definition join :: "string \<Rightarrow> string \<Rightarrow> string" where
  "join a b =
     (if startswith b sep \<or> a = [] then b
      else if endswith a sep then a @ b
      else a @ [sep] @ b)"

text \<open>
  \<^verbatim>\<open>
  def split(p):
      i = p.rfind(sep) + 1
      head, tail = p[:i], p[i:]
      if head and head != sep*len(head):
          head = head.rstrip(sep)
      return head, tail
  \<close>
  \<open>dirname\<close> computes the same head.
\<close>

definition split_path :: "string \<Rightarrow> string \<times> string" where
  "split_path p =
     (let i = nat (rfind p sep + 1);
          head = take i p;
          tail = drop i p
      in (if head \<noteq> [] \<and> head \<noteq> replicate (length head) sep then rstrip head sep else head,
          tail))"

definition dirname :: "string \<Rightarrow> string" where
  "dirname p =
     (let i = nat (rfind p sep + 1);
          head = take i p
      in if head \<noteq> [] \<and> head \<noteq> replicate (length head) sep then rstrip head sep else head)"

section \<open>File system calls\<close>

text \<open>
  The calls the tool makes, over the file system of the world, with the errors Linux and
  the Python wrappers give. What the model leaves out: search permission on directories;
  the umask (a node the process creates is writable by it); newline translation (none on
  POSIX); errors of the write itself, such as a full disk.
\<close>

definition nul :: char where
  "nul = CHR 0x00"

text \<open>The limits of Linux: a component has at most 255 bytes, a path fewer than 4096.\<close>

definition NAME_MAX :: nat where
  "NAME_MAX = 255"

definition PATH_MAX :: nat where
  "PATH_MAX = 4096"

text \<open>
  What every call checks on its path before it looks at the file system: Python refuses
  an embedded NUL with \<open>ValueError\<close>, the kernel an empty path with \<open>ENOENT\<close> and a path of
  \<open>PATH_MAX\<close> bytes or more with \<open>ENAMETOOLONG\<close>.
\<close>

definition path_error :: "string \<Rightarrow> error option" where
  "path_error p =
     (if nul \<in> set p then Some ValueError
      else if p = [] then Some FileNotFoundError
      else if PATH_MAX \<le> length p then Some NameTooLongError
      else None)"

text \<open>\<open>s.split('/')\<close>, and the non-empty fields: the components the kernel walks.\<close>

fun fields :: "string \<Rightarrow> string list" where
  "fields [] = [[]]"
| "fields (c # cs) =
     (if c = sep then [] # fields cs
      else (case fields cs of f # fs \<Rightarrow> (c # f) # fs | [] \<Rightarrow> [[c]]))"

definition comps :: "string \<Rightarrow> string list" where
  "comps p = filter (\<lambda>f. f \<noteq> []) (fields p)"

definition start_dir :: "path \<Rightarrow> string \<Rightarrow> path" where
  "start_dir cd p = (if startswith p sep then [] else cd)"

definition step :: "path \<Rightarrow> string \<Rightarrow> path" where
  "step cur c = (if c = ''.'' then cur else if c = ''..'' then butlast cur else cur @ [c])"

text \<open>
  Path resolution: every component is looked up in a directory; a missing intermediate
  node gives \<open>ENOENT\<close>, a regular file \<open>ENOTDIR\<close>, a component longer than \<open>NAME_MAX\<close>
  \<open>ENAMETOOLONG\<close>. The node reached last is not inspected.
\<close>

fun walk :: "(path \<rightharpoonup> node) \<Rightarrow> path \<Rightarrow> string list \<Rightarrow> error + path" where
  "walk ns cur [] = Inr cur"
| "walk ns cur (c # cs) =
     (case ns cur of
        None \<Rightarrow> Inl FileNotFoundError
      | Some (File _ _) \<Rightarrow> Inl NotADirectoryError
      | Some (Dir _) \<Rightarrow>
          if NAME_MAX < length c then Inl NameTooLongError else walk ns (step cur c) cs)"

text \<open>\<open>os.stat\<close>.\<close>

definition lookup :: "(path \<rightharpoonup> node) \<Rightarrow> path \<Rightarrow> string \<Rightarrow> error + node" where
  "lookup ns cd p =
     (case path_error p of
        Some e \<Rightarrow> Inl e
      | None \<Rightarrow>
          (case walk ns (start_dir cd p) (comps p) of
             Inl e \<Rightarrow> Inl e
           | Inr q \<Rightarrow>
               (case ns q of
                  None \<Rightarrow> Inl FileNotFoundError
                | Some (File w c) \<Rightarrow>
                    if endswith p sep then Inl NotADirectoryError else Inr (File w c)
                | Some (Dir w) \<Rightarrow> Inr (Dir w))))"

text \<open>
  \<open>os.path.exists\<close> and \<open>os.path.isdir\<close>: a failing \<open>stat\<close>, \<open>OSError\<close> or \<open>ValueError\<close>,
  gives \<open>False\<close>.
\<close>

definition exists_path :: "(path \<rightharpoonup> node) \<Rightarrow> path \<Rightarrow> string \<Rightarrow> bool" where
  "exists_path ns cd p = (case lookup ns cd p of Inl _ \<Rightarrow> False | Inr _ \<Rightarrow> True)"

definition isdir :: "(path \<rightharpoonup> node) \<Rightarrow> path \<Rightarrow> string \<Rightarrow> bool" where
  "isdir ns cd p = (case lookup ns cd p of Inr (Dir _) \<Rightarrow> True | _ \<Rightarrow> False)"

text \<open>The content of the regular file a path names, if it names one.\<close>

definition read_file :: "(path \<rightharpoonup> node) \<Rightarrow> path \<Rightarrow> string \<Rightarrow> string option" where
  "read_file ns cd p = (case lookup ns cd p of Inr (File _ c) \<Rightarrow> Some c | _ \<Rightarrow> None)"

text \<open>
  \<open>os.mkdir\<close>. On the last component the kernel reports, in this order: \<open>.\<close> or \<open>..\<close>
  (\<open>EEXIST\<close>), a name too long, an existing node (\<open>EEXIST\<close>), a parent that is not writable
  (\<open>EACCES\<close>). Trailing separators are ignored.
\<close>

definition mkdir :: "(path \<rightharpoonup> node) \<Rightarrow> path \<Rightarrow> string \<Rightarrow> error + (path \<rightharpoonup> node)" where
  "mkdir ns cd p =
     (case path_error p of
        Some e \<Rightarrow> Inl e
      | None \<Rightarrow>
          if comps p = [] then Inl FileExistsError
          else case walk ns (start_dir cd p) (butlast (comps p)) of
                 Inl e \<Rightarrow> Inl e
               | Inr par \<Rightarrow>
                   (case ns par of
                      None \<Rightarrow> Inl FileNotFoundError
                    | Some (File _ _) \<Rightarrow> Inl NotADirectoryError
                    | Some (Dir w) \<Rightarrow>
                        if last (comps p) = ''.'' \<or> last (comps p) = ''..''
                        then Inl FileExistsError
                        else if NAME_MAX < length (last (comps p)) then Inl NameTooLongError
                        else if ns (par @ [last (comps p)]) \<noteq> None then Inl FileExistsError
                        else if \<not> w then Inl PermissionError
                        else Inr (ns(par @ [last (comps p)] \<mapsto> Dir True))))"

text \<open>
  \<open>open(p, "w")\<close>: the file is created, or truncated when it exists. A last component
  \<open>.\<close> or \<open>..\<close> and a trailing separator give \<open>EISDIR\<close>. The result is the new file system
  and the handle, the canonical path of the open file.
\<close>

definition open_w ::
  "(path \<rightharpoonup> node) \<Rightarrow> path \<Rightarrow> string \<Rightarrow> error + ((path \<rightharpoonup> node) \<times> path)" where
  "open_w ns cd p =
     (case path_error p of
        Some e \<Rightarrow> Inl e
      | None \<Rightarrow>
          if comps p = [] then Inl IsADirectoryError
          else case walk ns (start_dir cd p) (butlast (comps p)) of
                 Inl e \<Rightarrow> Inl e
               | Inr par \<Rightarrow>
                   (case ns par of
                      None \<Rightarrow> Inl FileNotFoundError
                    | Some (File _ _) \<Rightarrow> Inl NotADirectoryError
                    | Some (Dir w) \<Rightarrow>
                        if last (comps p) = ''.'' \<or> last (comps p) = ''..'' \<or> endswith p sep
                        then Inl IsADirectoryError
                        else if NAME_MAX < length (last (comps p)) then Inl NameTooLongError
                        else (case ns (par @ [last (comps p)]) of
                                Some (Dir _) \<Rightarrow> Inl IsADirectoryError
                              | Some (File fw _) \<Rightarrow>
                                  if \<not> fw then Inl PermissionError
                                  else Inr (ns(par @ [last (comps p)] \<mapsto> File fw []),
                                            par @ [last (comps p)])
                              | None \<Rightarrow>
                                  if \<not> w then Inl PermissionError
                                  else Inr (ns(par @ [last (comps p)] \<mapsto> File True []),
                                            par @ [last (comps p)]))))"

text \<open>\<open>f.write(content)\<close> on an open handle: the text goes to the end of the file.\<close>

definition file_write :: "(path \<rightharpoonup> node) \<Rightarrow> path \<Rightarrow> string \<Rightarrow> (path \<rightharpoonup> node)" where
  "file_write ns f content =
     (case ns f of Some (File w old) \<Rightarrow> ns(f \<mapsto> File w (old @ content)) | _ \<Rightarrow> ns)"

text \<open>
  \<^verbatim>\<open>
  def makedirs(name, mode=0o777, exist_ok=False):
      head, tail = path.split(name)
      if not tail:
          head, tail = path.split(head)
      if head and tail and not path.exists(head):
          try:
              makedirs(head, exist_ok=exist_ok)
          except FileExistsError:
              pass
          if tail == curdir:
              return
      try:
          mkdir(name, mode)
      except OSError:
          if not exist_ok or not path.isdir(name):
              raise
  \<close>
\<close>

definition makedirs_split :: "string \<Rightarrow> string \<times> string" where
  "makedirs_split name =
     (if snd (split_path name) = [] then split_path (fst (split_path name))
      else split_path name)"

text \<open>The second \<open>try\<close>: only an \<open>OSError\<close> is caught.\<close>

definition try_mkdir ::
  "bool \<Rightarrow> (path \<rightharpoonup> node) \<Rightarrow> path \<Rightarrow> string \<Rightarrow> (path \<rightharpoonup> node) \<times> (error + unit)" where
  "try_mkdir exist_ok ns cd name =
     (case mkdir ns cd name of
        Inr ns' \<Rightarrow> (ns', Inr ())
      | Inl e \<Rightarrow>
          if is_OSError e then
            (if \<not> exist_ok \<or> \<not> isdir ns cd name then (ns, Inl e) else (ns, Inr ()))
          else (ns, Inl e))"


subsection \<open>Facts about path strings\<close>

lemma take_rev_dropWhile:
  "take (length (dropWhile P (rev p))) p = rev (dropWhile P (rev p))"
proof -
  have "p = rev (dropWhile P (rev p)) @ rev (takeWhile P (rev p))"
    by (metis rev_append rev_rev_ident takeWhile_dropWhile_id)
  then show ?thesis
    by (metis append_eq_conv_conj length_rev)
qed

lemma drop_rev_dropWhile:
  "drop (length (dropWhile P (rev p))) p = rev (takeWhile P (rev p))"
proof -
  have "p = rev (dropWhile P (rev p)) @ rev (takeWhile P (rev p))"
    by (metis rev_append rev_rev_ident takeWhile_dropWhile_id)
  then show ?thesis
    by (metis append_eq_conv_conj length_rev)
qed

definition raw_head :: "string \<Rightarrow> string" where
  "raw_head p = rev (dropWhile (\<lambda>x. x \<noteq> sep) (rev p))"

definition raw_tail :: "string \<Rightarrow> string" where
  "raw_tail p = rev (takeWhile (\<lambda>x. x \<noteq> sep) (rev p))"

definition strip_head :: "string \<Rightarrow> string" where
  "strip_head h = (if h \<noteq> [] \<and> h \<noteq> replicate (length h) sep then rstrip h sep else h)"

lemma rfind_index: "nat (rfind p c + 1) = length (dropWhile (\<lambda>x. x \<noteq> c) (rev p))"
  by (simp add: rfind_def)

lemma split_path_eq: "split_path p = (strip_head (raw_head p), raw_tail p)"
  unfolding split_path_def Let_def rfind_index take_rev_dropWhile drop_rev_dropWhile
    raw_head_def raw_tail_def strip_head_def
  by (rule refl)

lemma dirname_eq: "dirname p = strip_head (raw_head p)"
  unfolding dirname_def Let_def rfind_index take_rev_dropWhile raw_head_def strip_head_def
  by (rule refl)

lemma raw_parts: "p = raw_head p @ raw_tail p"
  unfolding raw_head_def raw_tail_def
  by (metis rev_append rev_rev_ident takeWhile_dropWhile_id)

lemma raw_tail_nosep: "sep \<notin> set (raw_tail p)"
  unfolding raw_tail_def by (auto dest: set_takeWhileD)

lemma raw_head_cases: "raw_head p = [] \<or> (\<exists>x. raw_head p = x @ [sep])"
proof (cases "dropWhile (\<lambda>x. x \<noteq> sep) (rev p)")
  case Nil
  then show ?thesis by (simp add: raw_head_def)
next
  case (Cons a as)
  then have "a = sep" using hd_dropWhile [of "\<lambda>x. x \<noteq> sep" "rev p"] by auto
  then show ?thesis using Cons by (simp add: raw_head_def)
qed


lemma raw_nosep:
  assumes "sep \<notin> set t"
  shows "raw_head t = []" and "raw_tail t = t"
proof -
  have "takeWhile (\<lambda>x. x \<noteq> sep) (rev t) = rev t"
    using assms by (auto simp: takeWhile_eq_all_conv)
  then show "raw_tail t = t" unfolding raw_tail_def by (simp only: rev_rev_ident)
  show "raw_head t = []" using assms by (auto simp: raw_head_def)
qed

lemma rstrip_prefix: "\<exists>n. s = rstrip s sep @ replicate n sep"
proof -
  have "rev s = takeWhile (\<lambda>x. x = sep) (rev s) @ dropWhile (\<lambda>x. x = sep) (rev s)"
    by simp
  moreover have "takeWhile (\<lambda>x. x = sep) (rev s)
      = replicate (length (takeWhile (\<lambda>x. x = sep) (rev s))) sep"
    by (metis (mono_tags, lifting) replicate_length_same set_takeWhileD)
  ultimately have "rev s = replicate (length (takeWhile (\<lambda>x. x = sep) (rev s))) sep
      @ dropWhile (\<lambda>x. x = sep) (rev s)" by simp
  then have "s = rev (dropWhile (\<lambda>x. x = sep) (rev s))
      @ replicate (length (takeWhile (\<lambda>x. x = sep) (rev s))) sep"
    by (metis rev_append rev_replicate rev_rev_ident)
  then show ?thesis unfolding rstrip_def by blast
qed


lemma rstrip_nonempty:
  assumes "s \<noteq> replicate (length s) sep"
  shows "rstrip s sep \<noteq> []"
proof
  assume e: "rstrip s sep = []"
  obtain n where n: "s = rstrip s sep @ replicate n sep" using rstrip_prefix by blast
  then have "s = replicate n sep" using e by simp
  then show False using assms by (metis length_replicate)
qed

lemma strip_head_suffix: "\<exists>n. h = strip_head h @ replicate n sep"
proof (cases "h \<noteq> [] \<and> h \<noteq> replicate (length h) sep")
  case True
  then show ?thesis using rstrip_prefix [of h] by (simp add: strip_head_def)
next
  case False
  then have "h = strip_head h @ replicate 0 sep" by (auto simp: strip_head_def)
  then show ?thesis by blast
qed

lemma strip_head_empty: "strip_head h = [] \<longleftrightarrow> h = []"
  using rstrip_nonempty [of h] by (auto simp: strip_head_def)

lemma strip_head_length: "length (strip_head h) \<le> length h"
proof -
  obtain n where "h = strip_head h @ replicate n sep" using strip_head_suffix by blast
  then have "length h = length (strip_head h) + n"
    by (metis length_append length_replicate)
  then show ?thesis by simp
qed

lemma startswith_prefix:
  assumes "a \<noteq> []"
  shows "startswith (a @ b) c = startswith a c"
  using assms by (cases a) (simp_all add: startswith_def)

lemma strip_head_startswith:
  assumes "h \<noteq> []"
  shows "startswith (strip_head h) c = startswith h c"
proof -
  obtain n where n: "h = strip_head h @ replicate n sep" using strip_head_suffix by blast
  have "strip_head h \<noteq> []" using assms by (simp add: strip_head_empty)
  then show ?thesis using n startswith_prefix by metis
qed


subsection \<open>Facts about components\<close>

lemma fields_nonempty: "fields p \<noteq> []"
  by (induction p) (auto split: list.splits)

lemma fields_append_sep: "fields (a @ sep # b) = fields a @ fields b"
proof (induction a)
  case Nil
  show ?case by simp
next
  case (Cons c a)
  obtain f fs where f: "fields a = f # fs" using fields_nonempty [of a] by (cases "fields a") auto
  show ?case using Cons f by simp
qed

lemma fields_nosep: "sep \<notin> set t \<Longrightarrow> fields t = [t]"
  by (induction t) auto

lemma comps_append_sep: "comps (a @ sep # b) = comps a @ comps b"
  by (simp add: comps_def fields_append_sep)

lemma comps_nosep: "sep \<notin> set t \<Longrightarrow> comps t = (if t = [] then [] else [t])"
  by (simp add: comps_def fields_nosep)

lemma comps_empty [simp]: "comps [] = []"
  by (simp add: comps_def)

lemma comps_replicate: "comps (replicate n sep) = []"
  by (induction n) (simp_all add: comps_def)

lemma comps_append_seps: "comps (a @ replicate n sep) = comps a"
proof (cases n)
  case 0
  then show ?thesis by simp
next
  case (Suc m)
  then have "a @ replicate n sep = a @ sep # replicate m sep" by simp
  then show ?thesis by (simp add: comps_append_sep comps_replicate)
qed

lemma comps_strip_head: "comps (strip_head h) = comps h"
proof -
  obtain n where "h = strip_head h @ replicate n sep" using strip_head_suffix by blast
  then show ?thesis using comps_append_seps by metis
qed

lemma fields_nosep_mem: "f \<in> set (fields p) \<Longrightarrow> sep \<notin> set f"
proof (induction p arbitrary: f)
  case Nil
  then show ?case by simp
next
  case (Cons x p)
  obtain g gs where g: "fields p = g # gs"
    using fields_nonempty [of p] by (cases "fields p") auto
  show ?case
  proof (cases "x = sep")
    case True
    then have "f = [] \<or> f \<in> set (fields p)" using Cons.prems by simp
    then show ?thesis using Cons.IH [of f] by auto
  next
    case False
    then have "f = x # g \<or> f \<in> set gs" using Cons.prems g by simp
    then show ?thesis
    proof
      assume "f = x # g"
      moreover have "sep \<notin> set g" using Cons.IH [of g] g by simp
      ultimately show ?thesis using False by simp
    next
      assume "f \<in> set gs"
      then have "f \<in> set (fields p)" using g by simp
      then show ?thesis by (rule Cons.IH)
    qed
  qed
qed

lemma comps_nosep_mem: "c \<in> set (comps p) \<Longrightarrow> c \<noteq> [] \<and> sep \<notin> set c"
  using fields_nosep_mem [of c p] by (simp add: comps_def)

lemma comps_raw:
  "comps (raw_head p) = comps (strip_head (raw_head p)) \<and>
   comps p = comps (raw_head p) @ (if raw_tail p = [] then [] else [raw_tail p])"
proof -
  have t: "comps (raw_tail p) = (if raw_tail p = [] then [] else [raw_tail p])"
    using raw_tail_nosep comps_nosep by blast
  have "comps p = comps (raw_head p) @ comps (raw_tail p)"
  proof (cases "raw_head p = []")
    case True
    then show ?thesis using raw_parts [of p] by simp
  next
    case False
    then obtain x where x: "raw_head p = x @ [sep]" using raw_head_cases by blast
    then have "p = x @ sep # raw_tail p" using raw_parts [of p] by simp
    then have "comps p = comps x @ comps (raw_tail p)" using comps_append_sep by metis
    moreover have "comps (raw_head p) = comps x"
      using x comps_append_sep [of x "[]"] by simp
    ultimately show ?thesis by simp
  qed
  then show ?thesis using t by (simp add: comps_strip_head)
qed

text \<open>What \<open>split\<close> gives, in terms of components.\<close>

lemma split_path_facts:
  assumes "split_path p = (h, t)"
  shows "sep \<notin> set t"
    and "comps p = comps h @ (if t = [] then [] else [t])"
    and "length h + length t \<le> length p"
    and "h \<noteq> [] \<Longrightarrow> startswith h sep = startswith p sep"
    and "h = [] \<Longrightarrow> p = t"
    and "t = [] \<Longrightarrow> p = [] \<or> endswith p sep"
    and "t \<noteq> [] \<Longrightarrow> \<not> endswith p sep"
proof -
  have h: "h = strip_head (raw_head p)" and t: "t = raw_tail p"
    using assms by (simp_all add: split_path_eq)
  show "sep \<notin> set t" using t raw_tail_nosep by simp
  show "comps p = comps h @ (if t = [] then [] else [t])"
    using comps_raw [of p] h t by simp
  have "length p = length (raw_head p) + length (raw_tail p)"
    using raw_parts [of p] by (metis length_append)
  then show "length h + length t \<le> length p"
    using strip_head_length [of "raw_head p"] h t by simp
  show "startswith h sep = startswith p sep" if "h \<noteq> []"
  proof -
    have r: "raw_head p \<noteq> []" using that h by (simp add: strip_head_empty)
    then have "startswith h sep = startswith (raw_head p) sep"
      using h strip_head_startswith by simp
    also have "\<dots> = startswith p sep"
      using r raw_parts [of p] startswith_prefix by metis
    finally show ?thesis .
  qed
  show "p = t" if "h = []"
  proof -
    have "raw_head p = []" using that h by (simp add: strip_head_empty)
    then show ?thesis using raw_parts [of p] t by simp
  qed
  show "p = [] \<or> endswith p sep" if "t = []"
  proof -
    have "p = raw_head p" using that t raw_parts [of p] by simp
    then show ?thesis using raw_head_cases [of p] by (auto simp: endswith_def)
  qed
  show "\<not> endswith p sep" if "t \<noteq> []"
  proof -
    have "last p = last t" using that t raw_parts [of p] by (metis last_appendR)
    moreover have "last t \<in> set t" using that by simp
    ultimately show ?thesis using \<open>sep \<notin> set t\<close> by (auto simp: endswith_def)
  qed
qed


text \<open>What the two splits at the head of \<open>makedirs\<close> give.\<close>

lemma makedirs_split_tail:
  assumes "makedirs_split name = (h, t)" and "t \<noteq> []"
  shows "comps name = comps h @ [t]"
    and "length h < length name"
    and "sep \<notin> set t"
    and "h \<noteq> [] \<Longrightarrow> startswith h sep = startswith name sep"
    and "h = [] \<Longrightarrow> \<not> startswith name sep"
proof -
  obtain h1 t1 where s1: "split_path name = (h1, t1)" by (cases "split_path name")
  have all: "comps name = comps h @ [t] \<and> length h < length name \<and> sep \<notin> set t \<and>
             (h \<noteq> [] \<longrightarrow> startswith h sep = startswith name sep) \<and>
             (h = [] \<longrightarrow> \<not> startswith name sep)"
  proof (cases "t1 = []")
    case False
    then have eq: "h = h1" "t = t1" using assms(1) s1 by (simp_all add: makedirs_split_def)
    have "h = [] \<longrightarrow> \<not> startswith name sep"
    proof
      assume "h = []"
      then have "name = t" using split_path_facts(5) [OF s1] eq by simp
      then show "\<not> startswith name sep"
        using split_path_facts(1) [OF s1] eq by (cases name) (auto simp: startswith_def)
    qed
    moreover have "length h < length name"
      using split_path_facts(3) [OF s1] eq False by (cases t1) auto
    ultimately show ?thesis
      using split_path_facts(1,2,4) [OF s1] eq assms(2) by auto
  next
    case True
    then have s2: "split_path h1 = (h, t)" using assms(1) s1 by (simp add: makedirs_split_def)
    have c1: "comps name = comps h1" using split_path_facts(2) [OF s1] True by simp
    have l1: "length h1 \<le> length name" using split_path_facts(3) [OF s1] by simp
    have h1ne: "h1 \<noteq> []" using split_path_facts(3) [OF s2] assms(2) by auto
    have st1: "startswith h1 sep = startswith name sep"
      using split_path_facts(4) [OF s1] h1ne by simp
    have "h = [] \<longrightarrow> \<not> startswith name sep"
    proof
      assume "h = []"
      then have "h1 = t" using split_path_facts(5) [OF s2] by simp
      then have "\<not> startswith h1 sep"
        using split_path_facts(1) [OF s2] by (cases h1) (auto simp: startswith_def)
      then show "\<not> startswith name sep" using st1 by simp
    qed
    moreover have "length h < length name"
      using split_path_facts(3) [OF s2] assms(2) l1 by (cases t) auto
    ultimately show ?thesis
      using split_path_facts(1,2,4) [OF s2] c1 st1 assms(2) by auto
  qed
  show "comps name = comps h @ [t]" using all by simp
  show "length h < length name" using all by simp
  show "sep \<notin> set t" using all by simp
  show "startswith h sep = startswith name sep" if "h \<noteq> []" using all that by simp
  show "\<not> startswith name sep" if "h = []" using all that by simp
qed






function makedirs ::
  "bool \<Rightarrow> (path \<rightharpoonup> node) \<Rightarrow> path \<Rightarrow> string \<Rightarrow> (path \<rightharpoonup> node) \<times> (error + unit)" where
  "makedirs exist_ok ns cd name =
     (let (head, tail) = makedirs_split name
      in if head \<noteq> [] \<and> tail \<noteq> [] \<and> \<not> exists_path ns cd head then
           (case makedirs exist_ok ns cd head of
              (ns1, Inl e) \<Rightarrow>
                if e = FileExistsError then
                  (if tail = ''.'' then (ns1, Inr ()) else try_mkdir exist_ok ns1 cd name)
                else (ns1, Inl e)
            | (ns1, Inr _) \<Rightarrow>
                if tail = ''.'' then (ns1, Inr ()) else try_mkdir exist_ok ns1 cd name)
         else try_mkdir exist_ok ns cd name)"
  by pat_completeness auto
termination
  apply (relation "measure (\<lambda>(e, ns, cd, name). length name)")
   apply simp
  apply simp
  apply (metis makedirs_split_tail(2))
  done

declare makedirs.simps [simp del]

text \<open>
  \<^verbatim>\<open>
  def write_file(tool_context, directory, filename, content):
      target_path = os.path.join(directory, filename)
      os.makedirs(os.path.dirname(target_path), exist_ok=True)
      with open(target_path, "w") as f:
          f.write(content)
      logging.info(f"File written to {target_path}")
      return {"status": "success"}
  \<close>
  Nothing is caught: an exception ends the call, and the world keeps what the calls
  before the raise have done to it.
\<close>

definition write_file ::
  "world \<Rightarrow> string \<Rightarrow> string \<Rightarrow> string \<Rightarrow> world \<times> (error + (string \<times> string) list)" where
  "write_file w directory filename content =
     (let target_path = join directory filename
      in case makedirs True (nodes w) (cwd w) (dirname target_path) of
           (ns1, Inl e) \<Rightarrow> (w\<lparr>nodes := ns1\<rparr>, Inl e)
         | (ns1, Inr _) \<Rightarrow>
             (case open_w ns1 (cwd w) target_path of
                Inl e \<Rightarrow> (w\<lparr>nodes := ns1\<rparr>, Inl e)
              | Inr (ns2, f) \<Rightarrow>
                  (w\<lparr>nodes := file_write ns2 f content,
                     logs := logs w @ [''File written to '' @ target_path]\<rparr>,
                   Inr success)))"







text \<open>
  A world for examples: the root is read-only; the working directory \<open>/home\<close> is writable
  and holds a read-only directory \<open>ro\<close> and a regular file \<open>f\<close>.
\<close>

definition w_home :: world where
  "w_home =
     \<lparr>state = Map.empty,
      nodes = [[] \<mapsto> Dir False, [''home''] \<mapsto> Dir True, [''home'', ''ro''] \<mapsto> Dir False,
               [''home'', ''f''] \<mapsto> File True ''old''],
      cwd = [''home''], logs = []\<rparr>"

section \<open>The state-append tool: results\<close>

text \<open>
  C1. When field \<open>f\<close> is unset, \<open>append_to_state\<close> with \<open>f\<close> and \<open>r\<close> returns the success
  status and binds \<open>f\<close> to the one-element list holding exactly \<open>r\<close>.
\<close>

theorem append_to_state_unset:
  assumes "state w f = None"
  shows "snd (append_to_state w f r) = Inr success \<and>
         state (fst (append_to_state w f r)) f = Some (PList [PStr r])"
  using assms by (simp add: append_to_state_def dict_get_def py_add_list_def)

theorem append_to_state_unset_witness:
  "state w0 ''pos_data'' = None \<and>
   snd (append_to_state w0 ''pos_data'' ''built roads'') = Inr success \<and>
   state (fst (append_to_state w0 ''pos_data'' ''built roads'')) ''pos_data''
     = Some (PList [PStr ''built roads''])"
proof -
  have h: "state w0 ''pos_data'' = None" by (simp add: w0_def)
  show ?thesis using h append_to_state_unset [OF h, of "''built roads''"] by simp
qed

text \<open>
  C2. When field \<open>f\<close> is bound to a list \<open>xs\<close>, \<open>append_to_state\<close> with \<open>f\<close> and \<open>r\<close> returns
  the success status and binds \<open>f\<close> to \<open>xs\<close> followed by \<open>r\<close>: the prior elements keep their
  order and multiplicity, whatever \<open>xs\<close> is (duplicates and any length included).
\<close>

theorem append_to_state_existing:
  assumes "state w f = Some (PList xs)"
  shows "snd (append_to_state w f r) = Inr success \<and>
         state (fst (append_to_state w f r)) f = Some (PList (xs @ [PStr r]))"
  using assms by (simp add: append_to_state_def dict_get_def py_add_list_def)

theorem append_to_state_existing_witness:
  "state (fst (append_to_state w0 ''neg_data'' ''a'')) ''neg_data'' = Some (PList [PStr ''a'']) \<and>
   snd (append_to_state (fst (append_to_state w0 ''neg_data'' ''a'')) ''neg_data'' ''a'')
     = Inr success \<and>
   state (fst (append_to_state (fst (append_to_state w0 ''neg_data'' ''a'')) ''neg_data'' ''a''))
     ''neg_data'' = Some (PList [PStr ''a'', PStr ''a''])"
proof -
  have h: "state (fst (append_to_state w0 ''neg_data'' ''a'')) ''neg_data''
             = Some (PList [PStr ''a''])"
    by (simp add: append_to_state_def dict_get_def py_add_list_def w0_def)
  show ?thesis using h append_to_state_existing [OF h, of "''a''"] by simp
qed

text \<open>
  C9. \<open>append_to_state\<close> with field \<open>f\<close> leaves every other key of the state as it was,
  whether the call returns or raises.
\<close>

theorem append_to_state_frame:
  assumes "k \<noteq> f"
  shows "state (fst (append_to_state w f r)) k = state w k"
  using assms
  by (simp add: append_to_state_def dict_get_def py_add_list_def Let_def
           split: option.splits pyval.splits)

theorem append_to_state_frame_witness:
  "''pos_data'' \<noteq> ''neg_data'' \<and>
   state (fst (append_to_state (fst (append_to_state w0 ''pos_data'' ''a'')) ''neg_data'' ''b''))
     ''pos_data'' = state (fst (append_to_state w0 ''pos_data'' ''a'')) ''pos_data'' \<and>
   state (fst (append_to_state w0 ''pos_data'' ''a'')) ''pos_data'' = Some (PList [PStr ''a''])"
proof -
  have h: "''pos_data'' \<noteq> ''neg_data''" by simp
  have v: "state (fst (append_to_state w0 ''pos_data'' ''a'')) ''pos_data''
             = Some (PList [PStr ''a''])"
    by (simp add: append_to_state_def dict_get_def py_add_list_def w0_def)
  show ?thesis
    using h v
      append_to_state_frame [OF h, of "fst (append_to_state w0 ''pos_data'' ''a'')" "''b''"]
    by simp
qed

text \<open>
  C5, as the specification states it, fails: the greeter stores the topic with
  \<open>append_to_state\<close>, which binds \<open>PROMPT\<close> to a one-element list, not to a string.
\<close>

theorem prompt_typing_counterexample:
  "spec_typing (state w0) \<and>
   state (fst (greeter_store w0 ''Napoleon'')) ''PROMPT'' = Some (PList [PStr ''Napoleon'']) \<and>
   \<not> spec_typing (state (fst (greeter_store w0 ''Napoleon'')))"
  by (simp add: spec_typing_def unset_or_def is_str_def greeter_store_def append_to_state_def
        dict_get_def py_add_list_def w0_def)

lemma is_str_list_snoc:
  "is_str_list (PList xs) \<Longrightarrow> is_str_list (PList (xs @ [PStr r]))"
  by (simp add: is_str_list_def is_str_def)

lemma unset_or_append:
  assumes "unset_or is_str_list (state w k)"
  shows "unset_or is_str_list (state (fst (append_to_state w f r)) k)"
proof (cases "k = f")
  case False
  then show ?thesis
    using assms
    by (simp add: append_to_state_def dict_get_def py_add_list_def Let_def
             split: option.splits pyval.splits)
next
  case True
  show ?thesis
  proof (cases "state w f")
    case None
    then show ?thesis
      using True
      by (simp add: append_to_state_def dict_get_def py_add_list_def unset_or_def
            is_str_list_def is_str_def)
  next
    case (Some v)
    then obtain xs where v: "v = PList xs"
      using assms True by (cases v) (simp_all add: unset_or_def is_str_list_def)
    have "is_str_list (PList xs)"
      using assms True Some v by (simp add: unset_or_def)
    then have "is_str_list (PList (xs @ [PStr r]))" by (rule is_str_list_snoc)
    then show ?thesis
      using True Some v
      by (simp add: append_to_state_def dict_get_def py_add_list_def unset_or_def)
  qed
qed

lemma seq_at_append:
  "prefix (seq_at (state w) k) (seq_at (state (fst (append_to_state w f r))) k)"
  by (simp add: append_to_state_def dict_get_def py_add_list_def Let_def seq_at_def
           split: option.splits pyval.splits)

lemma append_to_state_typed_ok:
  assumes "unset_or is_str_list (state w f)"
  shows "snd (append_to_state w f r) = Inr success"
  using assms
  by (auto simp: append_to_state_def dict_get_def py_add_list_def unset_or_def
        is_str_list_def split: option.splits pyval.splits)

lemma write_file_keeps_state: "state (fst (write_file w d fn c)) = state w"
  by (cases "makedirs True (nodes w) (cwd w) (dirname (join d fn))")
     (auto simp: write_file_def Let_def split: sum.splits)

text \<open>
  C5, amended. \<open>PROMPT\<close>, \<open>pos_data\<close> and \<open>neg_data\<close> are each unset or a list of strings,
  and every \<open>append_to_state\<close> step (any field, any response) keeps it so; a step on one of
  the three keys returns the success status; at every key the sequence after the step
  extends the sequence before it (append-only); and \<open>write_file\<close>, the other tool, leaves
  the state as it is.
\<close>

theorem append_to_state_keeps_typing:
  assumes "list_typing (state w)"
  shows "list_typing (state (fst (append_to_state w f r))) \<and>
         (f \<in> {''PROMPT'', ''pos_data'', ''neg_data''} \<longrightarrow>
            snd (append_to_state w f r) = Inr success) \<and>
         (\<forall>k. prefix (seq_at (state w) k) (seq_at (state (fst (append_to_state w f r))) k)) \<and>
         state (fst (write_file w d fn c)) = state w"
proof -
  have a: "list_typing (state (fst (append_to_state w f r)))"
    using assms unfolding list_typing_def by (simp add: unset_or_append)
  have b: "f \<in> {''PROMPT'', ''pos_data'', ''neg_data''} \<longrightarrow>
             snd (append_to_state w f r) = Inr success"
    using assms unfolding list_typing_def by (auto intro: append_to_state_typed_ok)
  show ?thesis using a b seq_at_append write_file_keeps_state by blast
qed

theorem append_to_state_keeps_typing_witness:
  "list_typing (state w0) \<and>
   list_typing (state (fst (greeter_store w0 ''Napoleon''))) \<and>
   snd (greeter_store w0 ''Napoleon'') = Inr success \<and>
   seq_at (state (fst (greeter_store w0 ''Napoleon''))) ''PROMPT'' = [PStr ''Napoleon'']"
proof -
  have h: "list_typing (state w0)"
    by (simp add: list_typing_def unset_or_def w0_def)
  have v: "seq_at (state (fst (greeter_store w0 ''Napoleon''))) ''PROMPT'' = [PStr ''Napoleon'']"
    by (simp add: seq_at_def greeter_store_def append_to_state_def dict_get_def
          py_add_list_def w0_def)
  show ?thesis
    using h v
      append_to_state_keeps_typing [OF h, of "''PROMPT''" "''Napoleon''" "''verdicts''"
        "''r.txt''" "''text''"]
    by (simp add: greeter_store_def)
qed

section \<open>Agents: results\<close>

text \<open>
  C7. The model-backed agents reachable from the root are the greeter, the admirer, the
  critic researcher, the judge and the verdict writer, and each of them carries the same
  retry options: six attempts, initial delay one.
\<close>

theorem all_agents_share_retry_options:
  "map (\<lambda>(n, g). (n, retry_options g)) (model_backed (root_agent mn)) =
     [(''judge_greeter'', Some RETRY_OPTIONS), (''admirer'', Some RETRY_OPTIONS),
      (''critic_researcher'', Some RETRY_OPTIONS), (''judge'', Some RETRY_OPTIONS),
      (''verdict_writer'', Some RETRY_OPTIONS)] \<and>
   RETRY_OPTIONS = \<lparr>initial_delay = 1, attempts = 6\<rparr>"
  by (simp add: root_agent_def historical_court_system_def trial_loop_def
        investigation_team_def admirer_def critic_researcher_def judge_def
        verdict_writer_def RETRY_OPTIONS_def)

lemma loop_step_simps:
  "loop_step l d (Iterating k) =
     (if run_body (d k) (sub_agents l) then TerminatedBySignal
      else if cap_reached (max_iterations l) (Suc k) then TerminatedByCap
      else Iterating (Suc k))"
  "loop_step l d TerminatedBySignal = TerminatedBySignal"
  "loop_step l d TerminatedByCap = TerminatedByCap"
  by (simp_all add: loop_step_def)

lemma run_body_trial_loop:
  "run_body d (sub_agents (trial_loop mn)) = d ''judge''"
  by (simp add: trial_loop_def investigation_team_def admirer_def critic_researcher_def
        judge_def)

lemma trial_loop_states:
  "(loop_step (trial_loop mn) decides ^^ n) (Iterating 0) =
     (if \<exists>k. k < n \<and> k < 3 \<and> decides k ''judge'' then TerminatedBySignal
      else if 3 \<le> n then TerminatedByCap else Iterating n)"
proof (induction n)
  case 0
  show ?case by simp
next
  case (Suc n)
  have cap: "cap_reached (max_iterations (trial_loop mn)) m = (3 \<le> m)" for m
    by (simp add: trial_loop_def cap_reached_def)
  show ?case
  proof (cases "\<exists>k. k < n \<and> k < 3 \<and> decides k ''judge''")
    case True
    then have "\<exists>k. k < Suc n \<and> k < 3 \<and> decides k ''judge''" using less_Suc_eq by blast
    then show ?thesis using Suc True by (simp add: loop_step_simps)
  next
    case False
    show ?thesis
    proof (cases "3 \<le> n")
      case True
      then have "\<not> (\<exists>k. k < Suc n \<and> k < 3 \<and> decides k ''judge'')"
        using False by (metis less_le_trans)
      then show ?thesis using Suc False True by (simp add: loop_step_simps)
    next
      case n3: False
      have now: "(loop_step (trial_loop mn) decides ^^ n) (Iterating 0) = Iterating n"
        using Suc False n3 by simp
      show ?thesis
      proof (cases "decides n ''judge''")
        case True
        then have "\<exists>k. k < Suc n \<and> k < 3 \<and> decides k ''judge''" using n3 by auto
        then show ?thesis using now True by (simp add: loop_step_simps run_body_trial_loop)
      next
        case d: False
        then have no: "\<not> (\<exists>k. k < Suc n \<and> k < 3 \<and> decides k ''judge'')"
          using False less_Suc_eq by auto
        show ?thesis
          using now d no n3 cap by (auto simp: loop_step_simps run_body_trial_loop)
      qed
    qed
  qed
qed

lemma bodies_run_le: "bodies_run (trial_loop mn) decides n \<le> min n 3"
proof (induction n)
  case 0
  show ?case by simp
next
  case (Suc n)
  show ?case
  proof (cases "3 \<le> n")
    case True
    then have "is_terminal ((loop_step (trial_loop mn) decides ^^ n) (Iterating 0))"
      by (simp add: trial_loop_states)
    then show ?thesis using Suc True by simp
  next
    case False
    then show ?thesis using Suc by simp
  qed
qed

text \<open>
  C6. Whatever the judge's model decides, after \<open>n\<close> steps the trial loop is terminated by
  signal when the judge called \<open>exit_loop\<close> in one of the first \<open>min n 3\<close> iterations, else
  terminated by cap when \<open>n\<close> has reached 3, else still iterating; so after three steps
  it has terminated in one of the two terminal states, and its body
  (\<open>investigation_team\<close>, then \<open>judge\<close>) is entered at most three times.
\<close>

theorem trial_loop_bounded:
  "(loop_step (trial_loop mn) decides ^^ n) (Iterating 0) =
     (if \<exists>k. k < n \<and> k < 3 \<and> decides k ''judge'' then TerminatedBySignal
      else if 3 \<le> n then TerminatedByCap else Iterating n) \<and>
   bodies_run (trial_loop mn) decides n \<le> 3 \<and>
   max_iterations (trial_loop mn) = Some 3 \<and>
   map agent_name (sub_agents (trial_loop mn)) = [''investigation_team'', ''judge'']"
proof -
  have "bodies_run (trial_loop mn) decides n \<le> min n 3"
    by (rule bodies_run_le)
  then have "bodies_run (trial_loop mn) decides n \<le> 3" by simp
  moreover have "max_iterations (trial_loop mn) = Some 3 \<and>
      map agent_name (sub_agents (trial_loop mn)) = [''investigation_team'', ''judge'']"
    by (simp add: trial_loop_def investigation_team_def judge_def)
  moreover have "(loop_step (trial_loop mn) decides ^^ n) (Iterating 0) =
     (if \<exists>k. k < n \<and> k < 3 \<and> decides k ''judge'' then TerminatedBySignal
      else if 3 \<le> n then TerminatedByCap else Iterating n)"
    by (rule trial_loop_states)
  ultimately show ?thesis by blast
qed

section \<open>The file-write tool: results\<close>






lemma makedirs_empty: "makedirs exist_ok ns cd [] = (ns, Inl FileNotFoundError)"
proof -
  have "makedirs_split [] = ([], [])"
    by (simp add: makedirs_split_def split_path_eq raw_head_def raw_tail_def strip_head_def)
  moreover have "try_mkdir exist_ok ns cd [] = (ns, Inl FileNotFoundError)"
    by (simp add: try_mkdir_def mkdir_def isdir_def lookup_def path_error_def is_OSError_def)
  ultimately show ?thesis by (simp add: makedirs.simps)
qed

lemma join_empty: "join [] fn = fn"
  by (simp add: join_def)

lemma dirname_nosep: "sep \<notin> set p \<Longrightarrow> dirname p = []"
  by (simp add: dirname_eq raw_nosep strip_head_def)

text \<open>
  C10. With the empty string as directory and a file name without a separator, the
  joined path is the file name, its \<open>dirname\<close> is empty, \<open>makedirs\<close> raises
  \<open>FileNotFoundError\<close> on it, and \<open>write_file\<close> ends there: the world, and with it every
  file, is as before, and nothing is written into the working directory.
\<close>

theorem write_file_empty_directory:
  assumes "sep \<notin> set fn"
  shows "dirname (join [] fn) = [] \<and> write_file w [] fn c = (w, Inl FileNotFoundError)"
  using assms by (simp add: write_file_def join_empty dirname_nosep makedirs_empty)

theorem write_file_empty_directory_witness:
  "sep \<notin> set ''report.txt'' \<and> dirname (join [] ''report.txt'') = [] \<and>
   write_file w_home [] ''report.txt'' ''text'' = (w_home, Inl FileNotFoundError) \<and>
   read_file (nodes (fst (write_file w_home [] ''report.txt'' ''text''))) (cwd w_home)
     ''report.txt'' = None"
proof -
  have h: "sep \<notin> set ''report.txt''" by (simp add: sep_def)
  have "read_file (nodes w_home) (cwd w_home) ''report.txt'' = None" by code_simp
  then show ?thesis
    using h write_file_empty_directory [OF h, of w_home "''text''"] by simp
qed

text \<open>
  C8. \<open>write_file\<close> catches nothing. When \<open>makedirs\<close> raises, \<open>write_file\<close> raises the same
  error; when \<open>makedirs\<close> returns and opening the target for writing raises, \<open>write_file\<close>
  raises that error. In both cases the success status is not returned.
\<close>

theorem write_file_propagates:
  "(snd (makedirs True (nodes w) (cwd w) (dirname (join d fn))) = Inl e \<longrightarrow>
      snd (write_file w d fn c) = Inl e \<and> snd (write_file w d fn c) \<noteq> Inr success) \<and>
   (snd (makedirs True (nodes w) (cwd w) (dirname (join d fn))) = Inr () \<and>
    open_w (fst (makedirs True (nodes w) (cwd w) (dirname (join d fn)))) (cwd w) (join d fn)
      = Inl e \<longrightarrow>
      snd (write_file w d fn c) = Inl e \<and> snd (write_file w d fn c) \<noteq> Inr success)"
  by (cases "makedirs True (nodes w) (cwd w) (dirname (join d fn))")
     (auto simp: write_file_def Let_def split: sum.splits)

theorem write_file_propagates_witness:
  "snd (makedirs True (nodes w_home) (cwd w_home) (dirname (join ''ro/x'' ''a.txt'')))
     = Inl PermissionError \<and>
   snd (write_file w_home ''ro/x'' ''a.txt'' ''text'') = Inl PermissionError \<and>
   snd (makedirs True (nodes w_home) (cwd w_home) (dirname (join ''f'' ''a.txt'')))
     = Inl FileExistsError \<and>
   snd (write_file w_home ''f'' ''a.txt'' ''text'') = Inl FileExistsError \<and>
   snd (makedirs True (nodes w_home) (cwd w_home) (dirname (join ''ro'' ''a.txt''))) = Inr () \<and>
   open_w (fst (makedirs True (nodes w_home) (cwd w_home) (dirname (join ''ro'' ''a.txt''))))
     (cwd w_home) (join ''ro'' ''a.txt'') = Inl PermissionError \<and>
   snd (write_file w_home ''ro'' ''a.txt'' ''text'') = Inl PermissionError"
proof -
  have m1: "snd (makedirs True (nodes w_home) (cwd w_home) (dirname (join ''ro/x'' ''a.txt'')))
              = Inl PermissionError"
    by code_simp
  have m2: "snd (makedirs True (nodes w_home) (cwd w_home) (dirname (join ''f'' ''a.txt'')))
              = Inl FileExistsError"
    by code_simp
  have m3: "snd (makedirs True (nodes w_home) (cwd w_home) (dirname (join ''ro'' ''a.txt'')))
              = Inr ()"
    by code_simp
  have "case open_w (fst (makedirs True (nodes w_home) (cwd w_home)
                (dirname (join ''ro'' ''a.txt'')))) (cwd w_home) (join ''ro'' ''a.txt'')
        of Inl e \<Rightarrow> e = PermissionError | Inr _ \<Rightarrow> False"
    by code_simp
  then have o3: "open_w (fst (makedirs True (nodes w_home) (cwd w_home)
                (dirname (join ''ro'' ''a.txt'')))) (cwd w_home) (join ''ro'' ''a.txt'')
        = Inl PermissionError"
    by (simp split: sum.splits)
  show ?thesis
    using m1 m2 m3 o3
      write_file_propagates [of w_home "''ro/x''" "''a.txt''" PermissionError "''text''"]
      write_file_propagates [of w_home "''f''" "''a.txt''" FileExistsError "''text''"]
      write_file_propagates [of w_home "''ro''" "''a.txt''" PermissionError "''text''"]
    by simp
qed

subsection \<open>Opening and writing\<close>













subsection \<open>What a returning call of \<open>write_file\<close> went through\<close>







subsection \<open>Creating the missing directories\<close>



















end
